theory Spec2Isabelle
  imports Main
begin

section \<open>Events, state descriptors and operations\<close>

text \<open>
  The two enumerations of \<^verbatim>\<open>main.cpp\<close>, in the order of their declaration. The
  enumerators double as array indices of the transition table, so their integer values
  are kept as \<open>Event_index\<close> and \<open>StateDescriptor_index\<close>.
\<close>

datatype Event = INCOMING_CALL | CALL_DECLINED | CALL_ANSWERED | CALL_ENDED

datatype StateDescriptor = IDLE | PHONE_RING | IN_CALL

fun Event_index :: "Event \<Rightarrow> nat" where
  "Event_index INCOMING_CALL = 0"
| "Event_index CALL_DECLINED = 1"
| "Event_index CALL_ANSWERED = 2"
| "Event_index CALL_ENDED = 3"

fun StateDescriptor_index :: "StateDescriptor \<Rightarrow> nat" where
  "StateDescriptor_index IDLE = 0"
| "StateDescriptor_index PHONE_RING = 1"
| "StateDescriptor_index IN_CALL = 2"

text \<open>
  \<^verbatim>\<open>using OpHandler = void (*) ()\<close>: a pointer to one of the four static member
  functions, or the null pointer (\<open>None\<close>). Each function writes one line to
  \<^verbatim>\<open>std::cout\<close>; \<open>call_function\<close> gives that line.
\<close>

datatype Function = incoming_call_handler | call_answered_handler
  | call_declined_handler | call_ended_handler

type_synonym OpHandler = "Function option"

definition newline :: string where
  "newline = [CHR 0x0A]"

fun call_function :: "Function \<Rightarrow> string" where
  "call_function incoming_call_handler = ''Phone started ringing'' @ newline"
| "call_function call_answered_handler = ''Call answered. Starting conversation'' @ newline"
| "call_function call_declined_handler = ''Call declined'' @ newline"
| "call_function call_ended_handler = ''Call ended'' @ newline"

text \<open>
  What ends the process abnormally. The only \<^verbatim>\<open>throw\<close> of the program is the one
  of \<^verbatim>\<open>get_event\<close>; nothing catches it. A call through a null function pointer and a
  member call through a null \<^verbatim>\<open>shared_ptr\<close> are undefined behaviour in C++; the
  model stops there. \<open>Wild_pointer\<close> is a pointer to an address that holds no object:
  a \<^verbatim>\<open>shared_ptr\<close> is never one, and the constructor is there so that no read of
  the store is out of range. No fault carries a state or an event.
\<close>

datatype Fault = Runtime_error string | Null_function_call | Null_pointer_dereference
  | Wild_pointer

section \<open>The handler map of a state\<close>

text \<open>
  \<^verbatim>\<open>std::map<Event, OpHandler>\<close> as a map from events to function pointers.
  \<open>map_insert\<close> is \<^verbatim>\<open>insert\<close>, which keeps an entry that is already there;
  \<open>map_subscript\<close> is \<^verbatim>\<open>operator[]\<close>, which stores a value-initialised (null)
  pointer under a key that is absent and returns the stored pointer.
\<close>

type_synonym handler_map = "Event \<rightharpoonup> OpHandler"

definition map_insert :: "handler_map \<Rightarrow> Event \<Rightarrow> OpHandler \<Rightarrow> handler_map" where
  "map_insert m k v = (case m k of None \<Rightarrow> m(k \<mapsto> v) | Some _ \<Rightarrow> m)"

definition map_subscript :: "handler_map \<Rightarrow> Event \<Rightarrow> handler_map \<times> OpHandler" where
  "map_subscript m k = (case m k of None \<Rightarrow> (m(k \<mapsto> None), None) | Some v \<Rightarrow> (m, v))"

text \<open>
  \<^verbatim>\<open>handler_map[e]()\<close>, the body shared by the three \<^verbatim>\<open>do_op\<close>: subscript, then
  call. The result is the map as the subscript left it and the output of the call.
\<close>

definition subscript_call :: "handler_map \<Rightarrow> Event \<Rightarrow> Fault + (handler_map \<times> string list)" where
  "subscript_call m e =
     (case map_subscript m e of
        (m', None) \<Rightarrow> Inl Null_function_call
      | (m', Some f) \<Rightarrow> Inr (m', [call_function f]))"

section \<open>The state classes\<close>

text \<open>
  An object of class \<^verbatim>\<open>Idle\<close>, \<^verbatim>\<open>PhoneRinging\<close> or \<^verbatim>\<open>InCall\<close> with its
  only field, the handler map. \<open>Idle_new\<close>, \<open>PhoneRinging_new\<close> and \<open>InCall_new\<close> are
  the objects the three constructors build.
\<close>

datatype State = Idle (handler_map: handler_map) | PhoneRinging (handler_map: handler_map)
  | InCall (handler_map: handler_map)

definition Idle_new :: State where
  "Idle_new = Idle (map_insert Map.empty INCOMING_CALL (Some incoming_call_handler))"

definition PhoneRinging_new :: State where
  "PhoneRinging_new =
     PhoneRinging (map_insert
       (map_insert Map.empty CALL_ANSWERED (Some call_answered_handler))
       CALL_DECLINED (Some call_declined_handler))"

definition InCall_new :: State where
  "InCall_new = InCall (map_insert Map.empty CALL_ENDED (Some call_ended_handler))"

fun do_op :: "State \<Rightarrow> Event \<Rightarrow> Fault + (State \<times> string list)" where
  "do_op (Idle m) e =
     (case subscript_call m e of Inl f \<Rightarrow> Inl f | Inr (m', out) \<Rightarrow> Inr (Idle m', out))"
| "do_op (PhoneRinging m) e =
     (case subscript_call m e of Inl f \<Rightarrow> Inl f | Inr (m', out) \<Rightarrow> Inr (PhoneRinging m', out))"
| "do_op (InCall m) e =
     (case subscript_call m e of Inl f \<Rightarrow> Inl f | Inr (m', out) \<Rightarrow> Inr (InCall m', out))"

fun get_descriptor :: "State \<Rightarrow> StateDescriptor" where
  "get_descriptor (Idle m) = IDLE"
| "get_descriptor (PhoneRinging m) = PHONE_RING"
| "get_descriptor (InCall m) = IN_CALL"

section \<open>The store of state objects\<close>

text \<open>
  The state objects live on the heap and are reached through
  \<^verbatim>\<open>std::shared_ptr<State>\<close>, which may be null. The store is the list of the
  objects allocated so far, an address is a position in it, and a pointer is an address
  or \<open>None\<close>. Objects are never reclaimed in the model: a \<^verbatim>\<open>shared_ptr\<close> never
  dangles, so reclaiming is not observable.
\<close>

type_synonym store = "State list"

type_synonym State_ptr = "nat option"

definition new_State :: "store \<Rightarrow> State \<Rightarrow> store \<times> State_ptr" where
  "new_State h obj = (h @ [obj], Some (length h))"

text \<open>\<^verbatim>\<open>p->\<close>: the address and the object a pointer leads to.\<close>

definition deref :: "store \<Rightarrow> State_ptr \<Rightarrow> Fault + (nat \<times> State)" where
  "deref h p =
     (case p of
        None \<Rightarrow> Inl Null_pointer_dereference
      | Some a \<Rightarrow> if a < length h then Inr (a, h ! a) else Inl Wild_pointer)"

section \<open>The transition manager\<close>

record TransitionManager =
  mapping :: "State_ptr list list"
  idle_state :: State_ptr
  phone_ringing_state :: State_ptr
  in_call_state :: State_ptr

definition NUM_STATES :: nat where
  "NUM_STATES = 3"

definition NUM_EVENTS :: nat where
  "NUM_EVENTS = 4"

text \<open>\<^verbatim>\<open>mapping[sd][e] = p\<close> on the two-dimensional array.\<close>

definition assign_mapping ::
  "State_ptr list list \<Rightarrow> StateDescriptor \<Rightarrow> Event \<Rightarrow> State_ptr \<Rightarrow> State_ptr list list" where
  "assign_mapping m sd e p =
     m[StateDescriptor_index sd := (m ! StateDescriptor_index sd)[Event_index e := p]]"

text \<open>
  The constructor: the members are initialised in the order of their declaration (the
  array of null pointers, then the three state objects), then the body makes its twelve
  assignments in the order of the source.
\<close>

definition TransitionManager_new :: "store \<Rightarrow> store \<times> TransitionManager" where
  "TransitionManager_new h =
     (let m0 = replicate NUM_STATES (replicate NUM_EVENTS None);
          (h1, idle) = new_State h Idle_new;
          (h2, ringing) = new_State h1 PhoneRinging_new;
          (h3, in_call) = new_State h2 InCall_new;
          m1 = assign_mapping m0 IDLE INCOMING_CALL ringing;
          m2 = assign_mapping m1 IDLE CALL_ANSWERED None;
          m3 = assign_mapping m2 IDLE CALL_DECLINED None;
          m4 = assign_mapping m3 IDLE CALL_ENDED None;
          m5 = assign_mapping m4 PHONE_RING INCOMING_CALL None;
          m6 = assign_mapping m5 PHONE_RING CALL_ANSWERED in_call;
          m7 = assign_mapping m6 PHONE_RING CALL_DECLINED idle;
          m8 = assign_mapping m7 PHONE_RING CALL_ENDED None;
          m9 = assign_mapping m8 IN_CALL INCOMING_CALL None;
          m10 = assign_mapping m9 IN_CALL CALL_ANSWERED None;
          m11 = assign_mapping m10 IN_CALL CALL_DECLINED None;
          m12 = assign_mapping m11 IN_CALL CALL_ENDED idle
      in (h3, \<lparr>mapping = m12, idle_state = idle,
                phone_ringing_state = ringing, in_call_state = in_call\<rparr>))"

definition get_next_state :: "TransitionManager \<Rightarrow> StateDescriptor \<Rightarrow> Event \<Rightarrow> State_ptr" where
  "get_next_state tm sd event = mapping tm ! StateDescriptor_index sd ! Event_index event"

section \<open>The event source\<close>

text \<open>
  \<^verbatim>\<open>get_event\<close> with its static counter \<^verbatim>\<open>call\<close> passed in and returned. The
  counter is an \<^verbatim>\<open>int\<close>; it is only ever incremented from 0 or 1, so it cannot
  overflow. A counter outside the three cases falls through the switch to the throw.
\<close>

definition get_event :: "int \<Rightarrow> Fault + (Event \<times> int)" where
  "get_event call =
     (if call = 0 then Inr (INCOMING_CALL, call + 1)
      else if call = 1 then Inr (CALL_ANSWERED, call + 1)
      else if call = 2 then Inr (CALL_ENDED, 0)
      else Inl (Runtime_error ''Fatal error: case must not be reached''))"

text \<open>
  \<open>n\<close> successive calls of \<^verbatim>\<open>get_event\<close> from the counter \<open>call\<close>: the events
  returned, in order, and the counter left behind; the first throw ends the sequence.
\<close>

fun get_events :: "nat \<Rightarrow> int \<Rightarrow> Fault + (Event list \<times> int)" where
  "get_events 0 call = Inr ([], call)"
| "get_events (Suc n) call =
     (case get_event call of
        Inl f \<Rightarrow> Inl f
      | Inr (e, call') \<Rightarrow>
          (case get_events n call' of
             Inl f \<Rightarrow> Inl f
           | Inr (es, call'') \<Rightarrow> Inr (e # es, call'')))"

section \<open>The machine\<close>

record FSM =
  current_state :: State_ptr

definition FSM_new :: "store \<Rightarrow> store \<times> FSM" where
  "FSM_new h = (let (h', p) = new_State h Idle_new in (h', \<lparr>current_state = p\<rparr>))"

text \<open>
  The state of the process that the consumer thread reads and writes: the store, the
  machine, the static counter of \<^verbatim>\<open>get_event\<close> and the lines written to
  \<^verbatim>\<open>std::cout\<close> so far.
\<close>

record Process =
  store :: store
  fsm :: FSM
  call :: int
  cout :: "string list"

text \<open>
  The two statements of \<^verbatim>\<open>FSM::run\<close> that follow \<^verbatim>\<open>get_event\<close>, for an event
  \<open>e\<close>: \<^verbatim>\<open>current_state->do_op(e)\<close>, then the assignment of
  \<^verbatim>\<open>get_next_state(current_state->get_descriptor(), e)\<close> to \<^verbatim>\<open>current_state\<close>.
  The table's answer is stored as it is, null or not.
\<close>

definition run_dispatch :: "TransitionManager \<Rightarrow> Event \<Rightarrow> Process \<Rightarrow> Fault + Process" where
  "run_dispatch tm e s =
     (case deref (store s) (current_state (fsm s)) of
        Inl f \<Rightarrow> Inl f
      | Inr (a, obj) \<Rightarrow>
          (case do_op obj e of
             Inl f \<Rightarrow> Inl f
           | Inr (obj', out) \<Rightarrow>
               Inr (s\<lparr>store := (store s)[a := obj'],
                      cout := cout s @ out,
                      fsm := (fsm s)\<lparr>current_state :=
                               get_next_state tm (get_descriptor obj') e\<rparr>\<rparr>)))"

text \<open>One pass through the loop of \<^verbatim>\<open>FSM::run\<close>, once the wait has returned.\<close>

definition run_iteration :: "TransitionManager \<Rightarrow> Process \<Rightarrow> Fault + Process" where
  "run_iteration tm s =
     (case get_event (call s) of
        Inl f \<Rightarrow> Inl f
      | Inr (e, call') \<Rightarrow> run_dispatch tm e (s\<lparr>call := call'\<rparr>))"

text \<open>
  The loop itself has no exit. \<open>run tm n s\<close> is the process after the wait has returned
  \<open>n\<close> times, or the fault that ended the process before that.
\<close>

fun run :: "TransitionManager \<Rightarrow> nat \<Rightarrow> Process \<Rightarrow> Fault + Process" where
  "run tm 0 s = Inr s"
| "run tm (Suc n) s =
     (case run_iteration tm s of Inl f \<Rightarrow> Inl f | Inr s' \<Rightarrow> run tm n s')"

text \<open>
  The same loop fed with a given list of events instead of \<^verbatim>\<open>get_event\<close>, to state
  what the machine does on sequences the event source never produces.
\<close>

fun process_events :: "TransitionManager \<Rightarrow> Event list \<Rightarrow> Process \<Rightarrow> Fault + Process" where
  "process_events tm [] s = Inr s"
| "process_events tm (e # es) s =
     (case run_dispatch tm e s of Inl f \<Rightarrow> Inl f | Inr s' \<Rightarrow> process_events tm es s')"

text \<open>
  \<^verbatim>\<open>main\<close> up to the call of \<^verbatim>\<open>run\<close>: the machine is constructed first (its own
  \<^verbatim>\<open>Idle\<close> object), then the manager (three more objects).
\<close>

definition main_manager :: TransitionManager where
  "main_manager = snd (TransitionManager_new (fst (FSM_new [])))"

definition main_process :: Process where
  "main_process =
     \<lparr>store = fst (TransitionManager_new (fst (FSM_new []))),
      fsm = snd (FSM_new []), call = 0, cout = []\<rparr>"

text \<open>The descriptor of the current state, read as \<^verbatim>\<open>current_state->get_descriptor()\<close>.\<close>

definition current_descriptor :: "Process \<Rightarrow> Fault + StateDescriptor" where
  "current_descriptor s =
     (case deref (store s) (current_state (fsm s)) of
        Inl f \<Rightarrow> Inl f
      | Inr (a, obj) \<Rightarrow> Inr (get_descriptor obj))"

text \<open>
  The descriptors met while a list of events is processed: the one before the first
  event, then the one after each event; a fault ends the list.
\<close>

fun states_visited ::
  "TransitionManager \<Rightarrow> Event list \<Rightarrow> Process \<Rightarrow> (Fault + StateDescriptor) list" where
  "states_visited tm [] s = [current_descriptor s]"
| "states_visited tm (e # es) s =
     current_descriptor s #
       (case run_dispatch tm e s of Inl f \<Rightarrow> [Inl f] | Inr s' \<Rightarrow> states_visited tm es s')"

section \<open>The specification's tables\<close>

text \<open>
  The transition table as the specification lists it (it is also the table in the
  comment at the head of \<^verbatim>\<open>main.cpp\<close>): four rows, every other pair illegal
  (\<open>None\<close>).
\<close>

fun spec_next_state :: "StateDescriptor \<Rightarrow> Event \<Rightarrow> StateDescriptor option" where
  "spec_next_state IDLE INCOMING_CALL = Some PHONE_RING"
| "spec_next_state PHONE_RING CALL_ANSWERED = Some IN_CALL"
| "spec_next_state PHONE_RING CALL_DECLINED = Some IDLE"
| "spec_next_state IN_CALL CALL_ENDED = Some IDLE"
| "spec_next_state sd e = None"

text \<open>The cyclic sequence of the specification's event source, by position.\<close>

definition spec_cyclic_event :: "nat \<Rightarrow> Event" where
  "spec_cyclic_event n =
     (if n mod 3 = 0 then INCOMING_CALL
      else if n mod 3 = 1 then CALL_ANSWERED
      else CALL_ENDED)"

text \<open>The accepted sequence of three events.\<close>

definition accepted_cycle :: "Event list" where
  "accepted_cycle = [INCOMING_CALL, CALL_ANSWERED, CALL_ENDED]"

section \<open>Predicates on the process\<close>

text \<open>
  The current-state pointer leads to an object, and the object is as one of the three
  constructors built it.
\<close>

definition valid_current_state :: "Process \<Rightarrow> bool" where
  "valid_current_state s =
     (case deref (store s) (current_state (fsm s)) of
        Inl f \<Rightarrow> False
      | Inr (a, obj) \<Rightarrow> obj = Idle_new \<or> obj = PhoneRinging_new \<or> obj = InCall_new)"

text \<open>
  In \<^verbatim>\<open>main\<close> the manager's objects for the three descriptors are at these
  addresses (address 0 is the \<^verbatim>\<open>Idle\<close> object the machine itself allocates).
\<close>

fun main_address :: "StateDescriptor \<Rightarrow> nat" where
  "main_address IDLE = 1"
| "main_address PHONE_RING = 2"
| "main_address IN_CALL = 3"

text \<open>
  The line an event's operation writes. Each event has one operation, registered by
  the states that accept the event.
\<close>

fun event_line :: "Event \<Rightarrow> string" where
  "event_line INCOMING_CALL = call_function incoming_call_handler"
| "event_line CALL_DECLINED = call_function call_declined_handler"
| "event_line CALL_ANSWERED = call_function call_answered_handler"
| "event_line CALL_ENDED = call_function call_ended_handler"

text \<open>
  The store is as \<^verbatim>\<open>main\<close> left it, and the counter of \<^verbatim>\<open>get_event\<close> and the
  current state are in step: the next event is the one the current state accepts.
\<close>

definition in_step :: "Process \<Rightarrow> bool" where
  "in_step s =
     (store s = store main_process \<and>
      (call s = 0 \<and> (current_state (fsm s) = Some 0 \<or> current_state (fsm s) = Some 1)
       \<or> call s = 1 \<and> current_state (fsm s) = Some 2
       \<or> call s = 2 \<and> current_state (fsm s) = Some 3))"

section \<open>Facts about the model\<close>

subsection \<open>What \<^verbatim>\<open>main\<close> constructs\<close>

lemma main_store: "store main_process = [Idle_new, Idle_new, PhoneRinging_new, InCall_new]"
  by (simp add: main_process_def TransitionManager_new_def FSM_new_def new_State_def Let_def)

lemma main_fsm: "current_state (fsm main_process) = Some 0"
  by (simp add: main_process_def FSM_new_def new_State_def)

lemma main_call_cout: "call main_process = 0" "cout main_process = []"
  by (simp_all add: main_process_def)

lemma main_mapping: "mapping main_manager =
  [[Some 2, None, None, None], [None, Some 1, Some 3, None], [None, None, None, Some 1]]"
  by (simp add: main_manager_def TransitionManager_new_def FSM_new_def new_State_def Let_def
      assign_mapping_def NUM_STATES_def NUM_EVENTS_def numeral_eq_Suc)

lemma main_members: "idle_state main_manager = Some 1" "phone_ringing_state main_manager = Some 2"
  "in_call_state main_manager = Some 3"
  by (simp_all add: main_manager_def TransitionManager_new_def FSM_new_def new_State_def Let_def)

lemma main_get_next_state:
  "get_next_state main_manager sd e =
     (case spec_next_state sd e of
        None \<Rightarrow> None
      | Some IDLE \<Rightarrow> Some 1
      | Some PHONE_RING \<Rightarrow> Some 2
      | Some IN_CALL \<Rightarrow> Some 3)"
  by (cases sd; cases e) (simp_all add: get_next_state_def main_mapping)

subsection \<open>The handlers\<close>

lemma do_op_Idle_new: "do_op Idle_new e = (if e = INCOMING_CALL then Inr (Idle_new, [call_function incoming_call_handler]) else Inl Null_function_call)"
  by (simp add: Idle_new_def subscript_call_def map_subscript_def map_insert_def)

lemma do_op_PhoneRinging_new: "do_op PhoneRinging_new e =
   (if e = CALL_ANSWERED then Inr (PhoneRinging_new, [call_function call_answered_handler])
    else if e = CALL_DECLINED then Inr (PhoneRinging_new, [call_function call_declined_handler])
    else Inl Null_function_call)"
  by (simp add: PhoneRinging_new_def subscript_call_def map_subscript_def map_insert_def)

lemma do_op_InCall_new: "do_op InCall_new e = (if e = CALL_ENDED then Inr (InCall_new, [call_function call_ended_handler]) else Inl Null_function_call)"
  by (simp add: InCall_new_def subscript_call_def map_subscript_def map_insert_def)

lemma descriptor_new: "get_descriptor Idle_new = IDLE" "get_descriptor PhoneRinging_new = PHONE_RING"
  "get_descriptor InCall_new = IN_CALL"
  by (simp_all add: Idle_new_def PhoneRinging_new_def InCall_new_def)

lemma do_op_no_entry: "handler_map obj e = None \<Longrightarrow> do_op obj e = Inl Null_function_call"
  by (cases obj) (simp_all add: subscript_call_def map_subscript_def)

lemma dom_new: "dom (handler_map Idle_new) = {INCOMING_CALL}"
  "dom (handler_map PhoneRinging_new) = {CALL_ANSWERED, CALL_DECLINED}"
  "dom (handler_map InCall_new) = {CALL_ENDED}"
  by (auto simp add: Idle_new_def PhoneRinging_new_def InCall_new_def map_insert_def split: if_splits)

subsection \<open>The event source\<close>

lemma get_event_cyclic:
  "get_event (int (k mod 3)) = Inr (spec_cyclic_event k, int (Suc k mod 3))"
proof -
  have "k mod 3 = 0 \<or> k mod 3 = 1 \<or> k mod 3 = 2" by arith
  then show ?thesis
    by (auto simp add: get_event_def spec_cyclic_event_def mod_Suc)
qed

lemma map_upt_shift: "map f [0..<Suc n] = f 0 # map (\<lambda>i. f (Suc i)) [0..<n]"
  by (simp only: upt_conv_Cons[of 0 "Suc n"] map_Suc_upt[symmetric]) (simp add: comp_def)

lemma get_events_cyclic:
  "get_events n (int (k mod 3)) =
     Inr (map (\<lambda>i. spec_cyclic_event (k + i)) [0..<n], int ((k + n) mod 3))"
proof (induction n arbitrary: k)
  case 0
  then show ?case by simp
next
  case (Suc n)
  have "get_events (Suc n) (int (k mod 3)) =
      Inr (spec_cyclic_event k # map (\<lambda>i. spec_cyclic_event (Suc k + i)) [0..<n],
           int ((Suc k + n) mod 3))"
    by (simp add: get_event_cyclic Suc.IH del: upt_Suc)
  also have "spec_cyclic_event k # map (\<lambda>i. spec_cyclic_event (Suc k + i)) [0..<n] =
      map (\<lambda>i. spec_cyclic_event (k + i)) [0..<Suc n]"
    by (simp add: map_upt_shift[of "\<lambda>i. spec_cyclic_event (k + i)"] del: upt_Suc)
  finally show ?case by simp
qed

subsection \<open>One event, and the accepted cycle\<close>

lemma run_dispatch_main:
  assumes "store s = store main_process" and "current_state (fsm s) = Some a" and "a < 4"
  shows "run_dispatch main_manager e s =
     (case spec_next_state (get_descriptor (store main_process ! a)) e of
        None \<Rightarrow> Inl Null_function_call
      | Some d \<Rightarrow> Inr (s\<lparr>cout := cout s @ [event_line e],
                          fsm := (fsm s)\<lparr>current_state := Some (main_address d)\<rparr>\<rparr>))"
proof -
  from assms(3) consider "a = 0" | "a = 1" | "a = 2" | "a = 3" by arith
  then show ?thesis
  proof cases
    case 1
    with assms show ?thesis
      by (cases e) (simp_all add: run_dispatch_def deref_def main_store do_op_Idle_new
          descriptor_new main_get_next_state)
  next
    case 2
    with assms show ?thesis
      by (cases e) (simp_all add: run_dispatch_def deref_def main_store do_op_Idle_new
          descriptor_new main_get_next_state)
  next
    case 3
    with assms show ?thesis
      by (cases e) (simp_all add: run_dispatch_def deref_def main_store do_op_PhoneRinging_new
          descriptor_new main_get_next_state numeral_2_eq_2)
  next
    case 4
    with assms show ?thesis
      by (cases e) (simp_all add: run_dispatch_def deref_def main_store do_op_InCall_new
          descriptor_new main_get_next_state numeral_3_eq_3)
  qed
qed

lemma process_events_append:
  "process_events tm (xs @ ys) s =
     (case process_events tm xs s of Inl f \<Rightarrow> Inl f | Inr s' \<Rightarrow> process_events tm ys s')"
  by (induction xs arbitrary: s) (simp_all split: sum.splits)

lemma cycle_from_idle:
  assumes st: "store s = store main_process"
    and cur: "current_state (fsm s) = Some 0 \<or> current_state (fsm s) = Some 1"
  shows "process_events main_manager accepted_cycle s =
     Inr (s\<lparr>cout := cout s @ map event_line accepted_cycle,
            fsm := (fsm s)\<lparr>current_state := Some 1\<rparr>\<rparr>)"
proof -
  define s1 where "s1 = s\<lparr>cout := cout s @ [event_line INCOMING_CALL],
      fsm := (fsm s)\<lparr>current_state := Some (main_address PHONE_RING)\<rparr>\<rparr>"
  define s2 where "s2 = s1\<lparr>cout := cout s1 @ [event_line CALL_ANSWERED],
      fsm := (fsm s1)\<lparr>current_state := Some (main_address IN_CALL)\<rparr>\<rparr>"
  define s3 where "s3 = s2\<lparr>cout := cout s2 @ [event_line CALL_ENDED],
      fsm := (fsm s2)\<lparr>current_state := Some (main_address IDLE)\<rparr>\<rparr>"
  from cur obtain a where a: "current_state (fsm s) = Some a" "a < 4"
      "get_descriptor (store main_process ! a) = IDLE"
    by (auto simp add: main_store descriptor_new)
  have 1: "run_dispatch main_manager INCOMING_CALL s = Inr s1"
    using run_dispatch_main[OF st a(1) a(2), of INCOMING_CALL] a(3) by (simp add: s1_def)
  have "store s1 = store main_process" "current_state (fsm s1) = Some 2"
    by (simp_all add: s1_def st)
  from run_dispatch_main[OF this, of CALL_ANSWERED]
  have 2: "run_dispatch main_manager CALL_ANSWERED s1 = Inr s2"
    by (simp add: s2_def main_store descriptor_new)
  have "store s2 = store main_process" "current_state (fsm s2) = Some 3"
    by (simp_all add: s2_def s1_def st)
  from run_dispatch_main[OF this, of CALL_ENDED]
  have 3: "run_dispatch main_manager CALL_ENDED s2 = Inr s3"
    by (simp add: s3_def main_store descriptor_new)
  have "process_events main_manager accepted_cycle s = Inr s3"
    by (simp add: accepted_cycle_def 1 2 3)
  also have "s3 = s\<lparr>cout := cout s @ map event_line accepted_cycle,
            fsm := (fsm s)\<lparr>current_state := Some 1\<rparr>\<rparr>"
    by (simp add: s3_def s2_def s1_def accepted_cycle_def)
  finally show ?thesis .
qed

lemma take_cycles:
  "k \<le> N \<Longrightarrow> take (3 * k) (concat (replicate N accepted_cycle)) = concat (replicate k accepted_cycle)"
proof -
  assume "k \<le> N"
  then have "replicate N accepted_cycle = replicate k accepted_cycle @ replicate (N - k) accepted_cycle"
    by (simp add: replicate_add[symmetric])
  moreover have "length (concat (replicate k accepted_cycle)) = 3 * k"
    by (induction k) (simp_all add: accepted_cycle_def)
  ultimately show ?thesis by simp
qed

lemma idle_descriptor:
  "store s = store main_process \<Longrightarrow> current_state (fsm s) = Some 0 \<or> current_state (fsm s) = Some 1
   \<Longrightarrow> current_descriptor s = Inr IDLE"
  by (auto simp add: current_descriptor_def deref_def main_store descriptor_new)

lemma states_visited_nonempty: "states_visited tm es s \<noteq> []"
  by (cases es) simp_all

lemma states_visited_append:
  "process_events tm xs s = Inr s' \<Longrightarrow>
   states_visited tm (xs @ ys) s = butlast (states_visited tm xs s) @ states_visited tm ys s'"
proof (induction xs arbitrary: s)
  case Nil
  then show ?case by simp
next
  case (Cons e xs)
  from Cons.prems obtain s1 where s1: "run_dispatch tm e s = Inr s1"
    and rest: "process_events tm xs s1 = Inr s'"
    by (auto split: sum.splits)
  from Cons.IH[OF rest] show ?case
    by (simp add: s1 states_visited_nonempty)
qed

lemma cycle_states_visited:
  assumes st: "store s = store main_process"
    and cur: "current_state (fsm s) = Some 0 \<or> current_state (fsm s) = Some 1"
  shows "states_visited main_manager accepted_cycle s =
     [Inr IDLE, Inr PHONE_RING, Inr IN_CALL, Inr IDLE]"
proof -
  define s1 where "s1 = s\<lparr>cout := cout s @ [event_line INCOMING_CALL],
      fsm := (fsm s)\<lparr>current_state := Some (main_address PHONE_RING)\<rparr>\<rparr>"
  define s2 where "s2 = s1\<lparr>cout := cout s1 @ [event_line CALL_ANSWERED],
      fsm := (fsm s1)\<lparr>current_state := Some (main_address IN_CALL)\<rparr>\<rparr>"
  define s3 where "s3 = s2\<lparr>cout := cout s2 @ [event_line CALL_ENDED],
      fsm := (fsm s2)\<lparr>current_state := Some (main_address IDLE)\<rparr>\<rparr>"
  from cur obtain a where a: "current_state (fsm s) = Some a" "a < 4"
      "get_descriptor (store main_process ! a) = IDLE"
    by (auto simp add: main_store descriptor_new)
  have 1: "run_dispatch main_manager INCOMING_CALL s = Inr s1"
    using run_dispatch_main[OF st a(1) a(2), of INCOMING_CALL] a(3) by (simp add: s1_def)
  have "store s1 = store main_process" "current_state (fsm s1) = Some 2"
    by (simp_all add: s1_def st)
  from run_dispatch_main[OF this, of CALL_ANSWERED]
  have 2: "run_dispatch main_manager CALL_ANSWERED s1 = Inr s2"
    by (simp add: s2_def main_store descriptor_new)
  have "store s2 = store main_process" "current_state (fsm s2) = Some 3"
    by (simp_all add: s2_def s1_def st)
  from run_dispatch_main[OF this, of CALL_ENDED]
  have 3: "run_dispatch main_manager CALL_ENDED s2 = Inr s3"
    by (simp add: s3_def main_store descriptor_new)
  have d0: "current_descriptor s = Inr IDLE"
    using st cur by (rule idle_descriptor)
  have d1: "current_descriptor s1 = Inr PHONE_RING"
    by (simp add: current_descriptor_def deref_def s1_def st main_store descriptor_new
        numeral_2_eq_2)
  have d2: "current_descriptor s2 = Inr IN_CALL"
    by (simp add: current_descriptor_def deref_def s2_def s1_def st main_store descriptor_new
        numeral_3_eq_3)
  have d3: "current_descriptor s3 = Inr IDLE"
    by (simp add: current_descriptor_def deref_def s3_def s2_def s1_def st main_store
        descriptor_new)
  show ?thesis
    by (simp add: accepted_cycle_def 1 2 3 d0 d1 d2 d3)
qed

lemma cycles_trace:
  assumes "store s = store main_process"
    and "current_state (fsm s) = Some 0 \<or> current_state (fsm s) = Some 1"
  shows "\<exists>s'. process_events main_manager (concat (replicate k accepted_cycle)) s = Inr s'
     \<and> store s' = store main_process
     \<and> (current_state (fsm s') = Some 0 \<or> current_state (fsm s') = Some 1)
     \<and> call s' = call s
     \<and> cout s' = cout s @ concat (replicate k (map event_line accepted_cycle))
     \<and> states_visited main_manager (concat (replicate k accepted_cycle)) s =
         Inr IDLE # concat (replicate k [Inr PHONE_RING, Inr IN_CALL, Inr IDLE])"
  using assms
proof (induction k arbitrary: s)
  case 0
  then show ?case by (simp add: idle_descriptor)
next
  case (Suc k)
  let ?s1 = "s\<lparr>cout := cout s @ map event_line accepted_cycle,
            fsm := (fsm s)\<lparr>current_state := Some 1\<rparr>\<rparr>"
  have step: "process_events main_manager accepted_cycle s = Inr ?s1"
    using Suc.prems by (rule cycle_from_idle)
  have visit: "states_visited main_manager accepted_cycle s =
     [Inr IDLE, Inr PHONE_RING, Inr IN_CALL, Inr IDLE]"
    using Suc.prems by (rule cycle_states_visited)
  have "store ?s1 = store main_process"
    and "current_state (fsm ?s1) = Some 0 \<or> current_state (fsm ?s1) = Some 1"
    using Suc.prems by simp_all
  from Suc.IH[OF this] obtain s' where s':
    "process_events main_manager (concat (replicate k accepted_cycle)) ?s1 = Inr s'"
    "store s' = store main_process"
    "current_state (fsm s') = Some 0 \<or> current_state (fsm s') = Some 1"
    "call s' = call ?s1"
    "cout s' = cout ?s1 @ concat (replicate k (map event_line accepted_cycle))"
    "states_visited main_manager (concat (replicate k accepted_cycle)) ?s1 =
         Inr IDLE # concat (replicate k [Inr PHONE_RING, Inr IN_CALL, Inr IDLE])"
    by blast
  have "states_visited main_manager (accepted_cycle @ concat (replicate k accepted_cycle)) s =
      butlast (states_visited main_manager accepted_cycle s) @
      states_visited main_manager (concat (replicate k accepted_cycle)) ?s1"
    using step by (rule states_visited_append)
  with s' show ?case
    by (simp add: process_events_append step visit)
qed

lemma cycle_lines:
  "map event_line accepted_cycle =
     [''Phone started ringing'' @ newline,
      ''Call answered. Starting conversation'' @ newline,
      ''Call ended'' @ newline]"
  by (simp add: accepted_cycle_def)

subsection \<open>What the loop preserves\<close>

lemma run_dispatch_preserves:
  assumes "store s = store main_process" and "current_state (fsm s) = Some a" and "a < 4"
    and "run_dispatch main_manager e s = Inr s'"
  shows "store s' = store main_process \<and> call s' = call s
     \<and> (\<exists>a'. current_state (fsm s') = Some a' \<and> a' < 4)"
proof -
  have "main_address d < 4" for d by (cases d) simp_all
  with assms(4) show ?thesis
    unfolding run_dispatch_main[OF assms(1-3)]
    by (auto simp add: assms(1) split: option.splits)
qed

lemma process_events_preserves:
  assumes "process_events main_manager es s = Inr s'"
    and "store s = store main_process" and "current_state (fsm s) = Some a" and "a < 4"
  shows "store s' = store main_process \<and> (\<exists>a'. current_state (fsm s') = Some a' \<and> a' < 4)"
  using assms
proof (induction es arbitrary: s a)
  case Nil
  then show ?case by auto
next
  case (Cons e es)
  from Cons.prems(1) obtain s1 where s1: "run_dispatch main_manager e s = Inr s1"
    and rest: "process_events main_manager es s1 = Inr s'"
    by (auto split: sum.splits)
  from run_dispatch_preserves[OF Cons.prems(2-4) s1]
  obtain a1 where "store s1 = store main_process" "current_state (fsm s1) = Some a1" "a1 < 4"
    by blast
  from Cons.IH[OF rest this] show ?case .
qed

lemma valid_current_stateI:
  assumes "store s = store main_process" and "current_state (fsm s) = Some a" and "a < 4"
  shows "valid_current_state s"
proof -
  from assms(3) consider "a = 0" | "a = 1" | "a = 2" | "a = 3" by arith
  then show ?thesis
    by cases (simp_all add: valid_current_state_def deref_def assms(1,2) main_store
        numeral_2_eq_2 numeral_3_eq_3)
qed

lemma run_iteration_in_step:
  assumes "in_step s"
  shows "\<exists>s'. run_iteration main_manager s = Inr s' \<and> in_step s'
     \<and> length (cout s') = Suc (length (cout s))"
proof -
  from assms have st: "store s = store main_process" by (simp add: in_step_def)
  from assms consider
      (idle) a where "call s = 0" "current_state (fsm s) = Some a" "a = 0 \<or> a = 1"
    | (ringing) "call s = 1" "current_state (fsm s) = Some 2"
    | (in_call) "call s = 2" "current_state (fsm s) = Some 3"
    by (auto simp add: in_step_def)
  then show ?thesis
  proof cases
    case idle
    have "store (s\<lparr>call := 1\<rparr>) = store main_process" "current_state (fsm (s\<lparr>call := 1\<rparr>)) = Some a" "a < 4"
      using st idle by auto
    from run_dispatch_main[OF this, of INCOMING_CALL] idle show ?thesis
      by (auto simp add: run_iteration_def get_event_def in_step_def st main_store descriptor_new)
  next
    case ringing
    have "store (s\<lparr>call := 2\<rparr>) = store main_process" "current_state (fsm (s\<lparr>call := 2\<rparr>)) = Some 2" "(2::nat) < 4"
      using st ringing by auto
    from run_dispatch_main[OF this, of CALL_ANSWERED] ringing show ?thesis
      by (auto simp add: run_iteration_def get_event_def in_step_def st main_store descriptor_new)
  next
    case in_call
    have "store (s\<lparr>call := 0\<rparr>) = store main_process" "current_state (fsm (s\<lparr>call := 0\<rparr>)) = Some 3" "(3::nat) < 4"
      using st in_call by auto
    from run_dispatch_main[OF this, of CALL_ENDED] in_call show ?thesis
      by (auto simp add: run_iteration_def get_event_def in_step_def st main_store descriptor_new)
  qed
qed

lemma run_in_step:
  assumes "in_step s"
  shows "\<exists>s'. run main_manager n s = Inr s' \<and> in_step s'
     \<and> length (cout s') = length (cout s) + n"
  using assms
proof (induction n arbitrary: s)
  case 0
  then show ?case by simp
next
  case (Suc n)
  from run_iteration_in_step[OF Suc.prems] obtain s1 where
    s1: "run_iteration main_manager s = Inr s1" "in_step s1" "length (cout s1) = Suc (length (cout s))"
    by blast
  from Suc.IH[OF s1(2)] obtain s' where
    "run main_manager n s1 = Inr s'" "in_step s'" "length (cout s') = length (cout s1) + n"
    by blast
  with s1 show ?case by simp
qed

lemma in_step_main: "in_step main_process"
  by (simp add: in_step_def main_fsm main_call_cout)

lemma in_step_valid: "in_step s \<Longrightarrow> valid_current_state s"
  by (auto simp add: in_step_def intro: valid_current_stateI)

lemma run_add:
  "run tm (m + n) s = (case run tm m s of Inl f \<Rightarrow> Inl f | Inr s' \<Rightarrow> run tm n s')"
  by (induction m arbitrary: s) (simp_all split: sum.splits)

lemma run_cycle:
  assumes st: "store s = store main_process"
    and cur: "current_state (fsm s) = Some 0 \<or> current_state (fsm s) = Some 1"
    and c0: "call s = 0"
  shows "run main_manager 3 s = process_events main_manager accepted_cycle s"
proof -
  define s1 where "s1 = s\<lparr>call := 1, cout := cout s @ [event_line INCOMING_CALL],
      fsm := (fsm s)\<lparr>current_state := Some (main_address PHONE_RING)\<rparr>\<rparr>"
  define s2 where "s2 = s1\<lparr>call := 2, cout := cout s1 @ [event_line CALL_ANSWERED],
      fsm := (fsm s1)\<lparr>current_state := Some (main_address IN_CALL)\<rparr>\<rparr>"
  define s3 where "s3 = s2\<lparr>call := 0, cout := cout s2 @ [event_line CALL_ENDED],
      fsm := (fsm s2)\<lparr>current_state := Some (main_address IDLE)\<rparr>\<rparr>"
  from cur obtain a where a: "current_state (fsm s) = Some a" "a < 4"
      "get_descriptor (store main_process ! a) = IDLE"
    by (auto simp add: main_store descriptor_new)
  have "store (s\<lparr>call := 1\<rparr>) = store main_process"
    "current_state (fsm (s\<lparr>call := 1\<rparr>)) = Some a"
    using st a by simp_all
  from run_dispatch_main[OF this a(2), of INCOMING_CALL]
  have 1: "run_iteration main_manager s = Inr s1"
    using a(3) by (simp add: run_iteration_def get_event_def c0 s1_def)
  have "store (s1\<lparr>call := 2\<rparr>) = store main_process"
    "current_state (fsm (s1\<lparr>call := 2\<rparr>)) = Some 2"
    by (simp_all add: s1_def st)
  from run_dispatch_main[OF this, of CALL_ANSWERED]
  have 2: "run_iteration main_manager s1 = Inr s2"
    by (simp add: run_iteration_def get_event_def s2_def s1_def main_store descriptor_new)
  have "store (s2\<lparr>call := 0\<rparr>) = store main_process"
    "current_state (fsm (s2\<lparr>call := 0\<rparr>)) = Some 3"
    by (simp_all add: s2_def s1_def st)
  from run_dispatch_main[OF this, of CALL_ENDED]
  have 3: "run_iteration main_manager s2 = Inr s3"
    by (simp add: run_iteration_def get_event_def s3_def s2_def s1_def main_store descriptor_new)
  have "run main_manager 3 s = Inr s3"
    by (simp add: numeral_3_eq_3 1 2 3)
  also have "s3 = s\<lparr>cout := cout s @ map event_line accepted_cycle,
            fsm := (fsm s)\<lparr>current_state := Some 1\<rparr>\<rparr>"
    using c0 by (simp add: s3_def s2_def s1_def accepted_cycle_def)
  also have "Inr \<dots> = process_events main_manager accepted_cycle s"
    using st cur by (rule cycle_from_idle[symmetric])
  finally show ?thesis .
qed

lemma run_cycles:
  assumes "store s = store main_process"
    and "current_state (fsm s) = Some 0 \<or> current_state (fsm s) = Some 1"
    and "call s = 0"
  shows "run main_manager (3 * k) s =
     process_events main_manager (concat (replicate k accepted_cycle)) s"
  using assms
proof (induction k arbitrary: s)
  case 0
  then show ?case by simp
next
  case (Suc k)
  let ?s1 = "s\<lparr>cout := cout s @ map event_line accepted_cycle,
            fsm := (fsm s)\<lparr>current_state := Some 1\<rparr>\<rparr>"
  have step: "process_events main_manager accepted_cycle s = Inr ?s1"
    using Suc.prems(1,2) by (rule cycle_from_idle)
  have r3: "run main_manager 3 s = Inr ?s1"
    using run_cycle[OF Suc.prems] step by simp
  have "store ?s1 = store main_process"
    and "current_state (fsm ?s1) = Some 0 \<or> current_state (fsm ?s1) = Some 1"
    and "call ?s1 = 0"
    using Suc.prems by simp_all
  from Suc.IH[OF this]
  have "run main_manager (3 * k) ?s1 =
      process_events main_manager (concat (replicate k accepted_cycle)) ?s1" .
  moreover have "3 * Suc k = 3 + 3 * k" by simp
  ultimately show ?case
    by (simp add: run_add r3 process_events_append step del: mult_Suc_right)
qed

lemma run_dispatch_table:
  assumes st: "store s = store main_process" and cur: "current_state (fsm s) = Some a"
    and a: "a < 4" and step: "run_dispatch main_manager e s = Inr s'"
  shows "current_descriptor s = Inr (get_descriptor (store main_process ! a))"
    and "current_state (fsm s') =
      get_next_state main_manager (get_descriptor (store main_process ! a)) e"
    and "current_state (fsm s') = idle_state main_manager
      \<or> current_state (fsm s') = phone_ringing_state main_manager
      \<or> current_state (fsm s') = in_call_state main_manager"
    and "store s' = store main_process"
proof -
  have len: "length (store main_process) = 4" by (simp add: main_store)
  show "current_descriptor s = Inr (get_descriptor (store main_process ! a))"
    by (simp add: current_descriptor_def deref_def st cur a len)
  from step obtain d where d: "spec_next_state (get_descriptor (store main_process ! a)) e = Some d"
    and s': "s' = s\<lparr>cout := cout s @ [event_line e],
        fsm := (fsm s)\<lparr>current_state := Some (main_address d)\<rparr>\<rparr>"
    unfolding run_dispatch_main[OF st cur a] by (auto split: option.splits)
  show "current_state (fsm s') =
      get_next_state main_manager (get_descriptor (store main_process ! a)) e"
    by (cases d) (simp_all add: s' main_get_next_state d)
  show "current_state (fsm s') = idle_state main_manager
      \<or> current_state (fsm s') = phone_ringing_state main_manager
      \<or> current_state (fsm s') = in_call_state main_manager"
    by (cases d) (simp_all add: s' main_members)
  show "store s' = store main_process"
    by (simp add: s' st)
qed

lemma run_snoc:
  "run tm (Suc n) s = (case run tm n s of Inl f \<Rightarrow> Inl f | Inr t \<Rightarrow> run_iteration tm t)"
proof (induction n arbitrary: s)
  case 0
  show ?case by (simp split: sum.splits)
next
  case (Suc n)
  show ?case
  proof (cases "run_iteration tm s")
    case (Inl f)
    then show ?thesis by simp
  next
    case (Inr s1)
    have "run tm (Suc (Suc n)) s = run tm (Suc n) s1"
      by (simp add: Inr)
    also have "\<dots> = (case run tm n s1 of Inl f \<Rightarrow> Inl f | Inr t \<Rightarrow> run_iteration tm t)"
      by (rule Suc.IH)
    also have "run tm n s1 = run tm (Suc n) s"
      by (simp add: Inr)
    finally show ?thesis .
  qed
qed

lemma run_iteration_table:
  assumes "in_step s"
  shows "\<exists>s' e c d. get_event (call s) = Inr (e, c) \<and> current_descriptor s = Inr d
     \<and> run_iteration main_manager s = Inr s'
     \<and> current_state (fsm s') = get_next_state main_manager d e
     \<and> (current_state (fsm s') = idle_state main_manager
        \<or> current_state (fsm s') = phone_ringing_state main_manager
        \<or> current_state (fsm s') = in_call_state main_manager)
     \<and> store s' = store main_process \<and> in_step s'"
proof -
  from run_iteration_in_step[OF assms] obtain s' where
    s': "run_iteration main_manager s = Inr s'" "in_step s'"
    by blast
  from assms have st: "store s = store main_process"
    by (simp add: in_step_def)
  from assms obtain a where a: "current_state (fsm s) = Some a" "a < 4"
    by (auto simp add: in_step_def)
  from assms obtain e c where ec: "get_event (call s) = Inr (e, c)"
    by (auto simp add: in_step_def get_event_def)
  have disp: "run_dispatch main_manager e (s\<lparr>call := c\<rparr>) = Inr s'"
    using s'(1) by (simp add: run_iteration_def ec)
  have st': "store (s\<lparr>call := c\<rparr>) = store main_process"
    and cur': "current_state (fsm (s\<lparr>call := c\<rparr>)) = Some a"
    using st a(1) by simp_all
  note t = run_dispatch_table[OF st' cur' a(2) disp]
  have "current_descriptor s = current_descriptor (s\<lparr>call := c\<rparr>)"
    by (simp add: current_descriptor_def)
  with t(1) have d: "current_descriptor s = Inr (get_descriptor (store main_process ! a))"
    by simp
  from ec d s' t(2,3,4) show ?thesis by blast
qed

section \<open>The claims\<close>

text \<open>
  Claim C2. The transition table is exactly the four-row table: looked up in the manager
  that \<^verbatim>\<open>main\<close> constructs, a listed pair gives a pointer to a live object whose
  descriptor is the listed next state, and each of the other eight pairs of the 3 x 4
  space gives the null pointer, which is the table's illegal-transition outcome. The four
  listed entries are the manager's own three objects.
\<close>

theorem transition_table_four_rows: "map_sum id (\<lambda>(a, obj). get_descriptor obj)
       (deref (store main_process) (get_next_state main_manager sd e)) =
     (case spec_next_state sd e of None \<Rightarrow> Inl Null_pointer_dereference | Some d \<Rightarrow> Inr d)
   \<and> get_next_state main_manager IDLE INCOMING_CALL = phone_ringing_state main_manager
   \<and> get_next_state main_manager PHONE_RING CALL_ANSWERED = in_call_state main_manager
   \<and> get_next_state main_manager PHONE_RING CALL_DECLINED = idle_state main_manager
   \<and> get_next_state main_manager IN_CALL CALL_ENDED = idle_state main_manager"
  by (cases sd; cases e)
    (simp_all add: main_get_next_state main_members main_store deref_def descriptor_new)

text \<open>
  Claim C4. From the initial process, the events INCOMING_CALL, CALL_ANSWERED, CALL_ENDED
  in this order visit the descriptors IDLE, PHONE_RING, IN_CALL, IDLE, and write exactly
  three lines, one per event: the phone starts ringing, the call is answered, the call
  ends. The machine is back at IDLE.
\<close>

theorem accepted_sequence_trace:
  "states_visited main_manager [INCOMING_CALL, CALL_ANSWERED, CALL_ENDED] main_process =
     [Inr IDLE, Inr PHONE_RING, Inr IN_CALL, Inr IDLE]
   \<and> map_sum id cout (process_events main_manager [INCOMING_CALL, CALL_ANSWERED, CALL_ENDED] main_process) =
     Inr [''Phone started ringing'' @ newline,
          ''Call answered. Starting conversation'' @ newline,
          ''Call ended'' @ newline]"
proof -
  define s1 where "s1 = main_process\<lparr>cout := [event_line INCOMING_CALL],
      fsm := (fsm main_process)\<lparr>current_state := Some 2\<rparr>\<rparr>"
  define s2 where "s2 = s1\<lparr>cout := cout s1 @ [event_line CALL_ANSWERED],
      fsm := (fsm s1)\<lparr>current_state := Some 3\<rparr>\<rparr>"
  define s3 where "s3 = s2\<lparr>cout := cout s2 @ [event_line CALL_ENDED],
      fsm := (fsm s2)\<lparr>current_state := Some 1\<rparr>\<rparr>"
  have 1: "run_dispatch main_manager INCOMING_CALL main_process = Inr s1"
    using run_dispatch_main[OF refl main_fsm, of INCOMING_CALL]
    by (simp add: s1_def main_store descriptor_new main_call_cout)
  have "store s1 = store main_process" "current_state (fsm s1) = Some 2"
    by (simp_all add: s1_def)
  from run_dispatch_main[OF this, of CALL_ANSWERED]
  have 2: "run_dispatch main_manager CALL_ANSWERED s1 = Inr s2"
    by (simp add: s2_def main_store descriptor_new)
  have "store s2 = store main_process" "current_state (fsm s2) = Some 3"
    by (simp_all add: s2_def s1_def)
  from run_dispatch_main[OF this, of CALL_ENDED]
  have 3: "run_dispatch main_manager CALL_ENDED s2 = Inr s3"
    by (simp add: s3_def main_store descriptor_new)
  have d0: "current_descriptor main_process = Inr IDLE"
    by (simp add: current_descriptor_def deref_def main_store main_fsm descriptor_new)
  have d1: "current_descriptor s1 = Inr PHONE_RING"
    by (simp add: current_descriptor_def deref_def s1_def main_store descriptor_new numeral_2_eq_2)
  have d2: "current_descriptor s2 = Inr IN_CALL"
    by (simp add: current_descriptor_def deref_def s2_def s1_def main_store descriptor_new numeral_3_eq_3)
  have d3: "current_descriptor s3 = Inr IDLE"
    by (simp add: current_descriptor_def deref_def s3_def s2_def s1_def main_store descriptor_new)
  have c3: "cout s3 = [''Phone started ringing'' @ newline,
          ''Call answered. Starting conversation'' @ newline,
          ''Call ended'' @ newline]"
    by (simp add: s3_def s2_def s1_def)
  show ?thesis
    by (simp add: 1 2 3 d0 d1 d2 d3 c3)
qed

text \<open>
  Claim C5. Let the accepted sequence of three events be repeated \<open>N\<close> times from the
  initial process. After each of the cycles, that is after the first \<open>3 * k\<close> events for
  every \<open>k \<le> N\<close>, the processing has completed and the machine is at IDLE. It has
  gone through IDLE, then PHONE_RING, IN_CALL, IDLE once per cycle, and it has written
  exactly the three lines of a cycle \<open>k\<close> times over, \<open>3 * k\<close> lines in all: the phone
  starts ringing, the call is answered, the call ends. The loop of \<^verbatim>\<open>FSM::run\<close>,
  which takes its events from \<^verbatim>\<open>get_event\<close>, is in the same process after
  \<open>3 * k\<close> passes.
\<close>

theorem cycles_return_to_idle:
  assumes "k \<le> N"
  shows "\<exists>s. process_events main_manager (take (3 * k) (concat (replicate N accepted_cycle)))
              main_process = Inr s
     \<and> run main_manager (3 * k) main_process = Inr s
     \<and> current_descriptor s = Inr IDLE
     \<and> cout s = concat (replicate k
          [''Phone started ringing'' @ newline,
           ''Call answered. Starting conversation'' @ newline,
           ''Call ended'' @ newline])
     \<and> length (cout s) = 3 * k
     \<and> states_visited main_manager (take (3 * k) (concat (replicate N accepted_cycle)))
          main_process =
        Inr IDLE # concat (replicate k [Inr PHONE_RING, Inr IN_CALL, Inr IDLE])"
proof -
  have init: "store main_process = store main_process"
    "current_state (fsm main_process) = Some 0 \<or> current_state (fsm main_process) = Some 1"
    "call main_process = 0"
    by (simp_all add: main_fsm main_call_cout)
  from cycles_trace[OF init(1,2), of k] obtain s where s:
    "process_events main_manager (concat (replicate k accepted_cycle)) main_process = Inr s"
    "store s = store main_process"
    "current_state (fsm s) = Some 0 \<or> current_state (fsm s) = Some 1"
    "cout s = cout main_process @ concat (replicate k (map event_line accepted_cycle))"
    "states_visited main_manager (concat (replicate k accepted_cycle)) main_process =
         Inr IDLE # concat (replicate k [Inr PHONE_RING, Inr IN_CALL, Inr IDLE])"
    by blast
  have len: "length (concat (replicate k (map event_line accepted_cycle))) = 3 * k"
    by (induction k) (simp_all add: accepted_cycle_def)
  have r: "run main_manager (3 * k) main_process = Inr s"
    using run_cycles[OF init, of k] s(1) by simp
  have d: "current_descriptor s = Inr IDLE"
    using s(2,3) by (rule idle_descriptor)
  have c: "cout s = concat (replicate k
          [''Phone started ringing'' @ newline,
           ''Call answered. Starting conversation'' @ newline,
           ''Call ended'' @ newline])"
    using s(4) by (simp only: cycle_lines main_call_cout append_Nil)
  have l: "length (cout s) = 3 * k"
    using s(4) len by (simp only: main_call_cout append_Nil)
  show ?thesis
    unfolding take_cycles[OF assms]
    by (rule exI[of _ s]) (intro conjI s(1) r d c l s(5))
qed

theorem cycles_return_to_idle_witness:
  "(1::nat) \<le> 2 \<and> (\<exists>s. process_events main_manager (take (3 * 1) (concat (replicate 2 accepted_cycle)))
              main_process = Inr s
     \<and> run main_manager (3 * 1) main_process = Inr s
     \<and> current_descriptor s = Inr IDLE
     \<and> cout s = concat (replicate 1
          [''Phone started ringing'' @ newline,
           ''Call answered. Starting conversation'' @ newline,
           ''Call ended'' @ newline])
     \<and> length (cout s) = 3 * 1
     \<and> states_visited main_manager (take (3 * 1) (concat (replicate 2 accepted_cycle)))
          main_process =
        Inr IDLE # concat (replicate 1 [Inr PHONE_RING, Inr IN_CALL, Inr IDLE]))"
proof -
  have h: "(1::nat) \<le> 2" by simp
  show ?thesis using h cycles_return_to_idle[OF h] by (rule conjI)
qed

text \<open>
  Claim C7. Counting calls from 0, the first \<open>n\<close> calls of \<^verbatim>\<open>get_event\<close> all
  return, and call number \<open>i\<close> returns INCOMING_CALL, CALL_ANSWERED or CALL_ENDED as
  \<open>i mod 3\<close> is 0, 1 or 2; CALL_DECLINED is never among the events returned.
\<close>

theorem get_event_strictly_cyclic: "get_events n 0 = Inr (map spec_cyclic_event [0..<n], int (n mod 3))
   \<and> CALL_DECLINED \<notin> set (map spec_cyclic_event [0..<n])"
  using get_events_cyclic[of n 0] by (auto simp add: spec_cyclic_event_def)

text \<open>
  Claim C9. After any number \<open>n\<close> of calls of \<^verbatim>\<open>get_event\<close>, none of which has
  thrown, the static counter is 0, 1 or 2, and the next call returns one of
  INCOMING_CALL, CALL_ANSWERED, CALL_ENDED: the throw after the switch is never reached.
\<close>

theorem get_event_counter_in_range: "\<exists>es c. get_events n 0 = Inr (es, c) \<and> (c = 0 \<or> c = 1 \<or> c = 2)
    \<and> (\<exists>e c'. get_event c = Inr (e, c') \<and> (e = INCOMING_CALL \<or> e = CALL_ANSWERED \<or> e = CALL_ENDED))"
proof -
  have cases3: "n mod 3 = 0 \<or> n mod 3 = 1 \<or> n mod 3 = 2" by arith
  have "get_events n 0 = Inr (map (\<lambda>i. spec_cyclic_event (0 + i)) [0..<n], int ((0 + n) mod 3))"
    using get_events_cyclic[of n 0] by simp
  moreover have "get_event (int (n mod 3)) = Inr (spec_cyclic_event n, int (Suc n mod 3))"
    by (rule get_event_cyclic)
  ultimately show ?thesis using cases3
    by (auto simp add: spec_cyclic_event_def)
qed

text \<open>
  Claim C1, as the code has it. Let the store be as \<^verbatim>\<open>main\<close> built it, let the
  current state be a live object with descriptor \<open>sd\<close>, and let \<open>(sd, e)\<close> be none of
  the four listed transitions. Then the pass of the loop for \<open>e\<close> writes nothing and
  installs no state: the handler has no operation for \<open>e\<close>, and the pass ends in the
  call of a null operation. The table's entry for \<open>(sd, e)\<close> is the null pointer.
\<close>

theorem illegal_pair_faults:
  assumes "store s = store main_process" and "current_state (fsm s) = Some a" and "a < 4"
    and "get_descriptor (store s ! a) = sd" and "spec_next_state sd e = None"
  shows "run_dispatch main_manager e s = Inl Null_function_call
     \<and> get_next_state main_manager sd e = None"
  using assms run_dispatch_main[OF assms(1-3), of e] by (simp add: main_get_next_state)

theorem illegal_pair_faults_witness:
  "store main_process = store main_process \<and> current_state (fsm main_process) = Some 0 \<and> (0::nat) < 4
   \<and> get_descriptor (store main_process ! 0) = IDLE \<and> spec_next_state IDLE CALL_ENDED = None
   \<and> run_dispatch main_manager CALL_ENDED main_process = Inl Null_function_call
   \<and> get_next_state main_manager IDLE CALL_ENDED = None"
proof -
  have h: "get_descriptor (store main_process ! 0) = IDLE" by (simp add: main_store descriptor_new)
  have n: "spec_next_state IDLE CALL_ENDED = None" by simp
  show ?thesis using illegal_pair_faults[OF refl main_fsm _ h n] h main_fsm by simp
qed

text \<open>
  Claim C1 as stated (the state is kept and an error is reported) fails: the initial
  process is at IDLE, the pair (IDLE, CALL_ANSWERED) is not listed, and the pass for
  CALL_ANSWERED ends the process in a null call instead of returning with the state
  kept; the table would have answered with the null pointer.
\<close>

theorem illegal_pair_state_not_kept:
  "current_descriptor main_process = Inr IDLE
   \<and> spec_next_state IDLE CALL_ANSWERED = None
   \<and> run_dispatch main_manager CALL_ANSWERED main_process = Inl Null_function_call
   \<and> get_next_state main_manager IDLE CALL_ANSWERED = None"
  using run_dispatch_main[OF refl main_fsm, of CALL_ANSWERED]
  by (simp add: main_store descriptor_new main_get_next_state current_descriptor_def deref_def main_fsm)

text \<open>
  Claim C3, as the code has it. The events a handler accepts are the keys of its handler
  map: INCOMING_CALL for \<^verbatim>\<open>Idle\<close>, CALL_ANSWERED and CALL_DECLINED for
  \<^verbatim>\<open>PhoneRinging\<close>, CALL_ENDED for \<^verbatim>\<open>InCall\<close>. For an event that is not a key,
  \<^verbatim>\<open>do_op\<close> writes nothing and does not return: it ends in the call of the null
  operation that the subscript stored. No error naming the state and the event is raised.
\<close>

theorem do_op_unaccepted_event:
  assumes "e \<notin> dom (handler_map obj)"
  shows "do_op obj e = Inl Null_function_call
     \<and> dom (handler_map Idle_new) = {INCOMING_CALL}
     \<and> dom (handler_map PhoneRinging_new) = {CALL_ANSWERED, CALL_DECLINED}
     \<and> dom (handler_map InCall_new) = {CALL_ENDED}"
  using assms by (simp add: do_op_no_entry dom_new domIff)

theorem do_op_unaccepted_event_witness:
  "CALL_ENDED \<notin> dom (handler_map Idle_new)
   \<and> do_op Idle_new CALL_ENDED = Inl Null_function_call
     \<and> dom (handler_map Idle_new) = {INCOMING_CALL}
     \<and> dom (handler_map PhoneRinging_new) = {CALL_ANSWERED, CALL_DECLINED}
     \<and> dom (handler_map InCall_new) = {CALL_ENDED}"
proof -
  have h: "CALL_ENDED \<notin> dom (handler_map Idle_new)" by (simp add: dom_new)
  show ?thesis using h do_op_unaccepted_event[OF h] by simp
qed

text \<open>
  Claim C3 as stated (an error carrying the state and the event) fails: INCOMING_CALL is
  not accepted by \<^verbatim>\<open>PhoneRinging\<close>, and \<^verbatim>\<open>do_op\<close> ends in a null call, a fault
  that carries nothing.
\<close>

theorem do_op_no_unhandled_event_error:
  "INCOMING_CALL \<notin> dom (handler_map PhoneRinging_new)
   \<and> do_op PhoneRinging_new INCOMING_CALL = Inl Null_function_call"
  by (simp add: dom_new do_op_PhoneRinging_new)

text \<open>
  Claim C6, as the code has it. The machine starts with its current state at a live
  \<^verbatim>\<open>Idle\<close> object of its own, which is none of the manager's three objects. Let
  a list of events be processed to its end, and one more event \<open>e\<close> after it. Before
  and after \<open>e\<close> the current state is a non-null pointer to a live object that is as
  one of the three constructors built it. The pass for \<open>e\<close> replaces the pointer by the
  table's entry for the descriptor the machine was at and \<open>e\<close>, which is one of the
  manager's three objects, and it leaves the objects of the store as they were. The same
  holds along the loop of \<^verbatim>\<open>FSM::run\<close> fed by \<^verbatim>\<open>get_event\<close>: for every \<open>n\<close>
  the first \<open>n\<close> passes complete, so does the next one, and it installs the table's
  entry for the descriptor and the event of that pass.
\<close>

theorem current_state_valid:
  assumes "process_events main_manager es main_process = Inr s"
    and "run_dispatch main_manager e s = Inr s'"
  shows "deref (store main_process) (current_state (fsm main_process)) = Inr (0, Idle_new)
     \<and> current_state (fsm main_process) \<noteq> idle_state main_manager
     \<and> current_state (fsm main_process) \<noteq> phone_ringing_state main_manager
     \<and> current_state (fsm main_process) \<noteq> in_call_state main_manager
     \<and> valid_current_state s
     \<and> valid_current_state s'
     \<and> (\<exists>d. current_descriptor s = Inr d
          \<and> current_state (fsm s') = get_next_state main_manager d e)
     \<and> (current_state (fsm s') = idle_state main_manager
        \<or> current_state (fsm s') = phone_ringing_state main_manager
        \<or> current_state (fsm s') = in_call_state main_manager)
     \<and> store s' = store main_process
     \<and> (\<exists>t t' d' e' c'. run main_manager n main_process = Inr t
          \<and> valid_current_state t
          \<and> get_event (call t) = Inr (e', c') \<and> current_descriptor t = Inr d'
          \<and> run main_manager (Suc n) main_process = Inr t'
          \<and> current_state (fsm t') = get_next_state main_manager d' e'
          \<and> (current_state (fsm t') = idle_state main_manager
             \<or> current_state (fsm t') = phone_ringing_state main_manager
             \<or> current_state (fsm t') = in_call_state main_manager)
          \<and> valid_current_state t'
          \<and> store t' = store main_process)"
proof -
  have i1: "deref (store main_process) (current_state (fsm main_process)) = Inr (0, Idle_new)"
    by (simp add: deref_def main_fsm main_store)
  have i2: "current_state (fsm main_process) \<noteq> idle_state main_manager"
    and i3: "current_state (fsm main_process) \<noteq> phone_ringing_state main_manager"
    and i4: "current_state (fsm main_process) \<noteq> in_call_state main_manager"
    by (simp_all add: main_fsm main_members)
  from process_events_preserves[OF assms(1) refl main_fsm]
  obtain a where a: "store s = store main_process" "current_state (fsm s) = Some a" "a < 4"
    by auto
  have v: "valid_current_state s"
    using a by (rule valid_current_stateI)
  note t = run_dispatch_table[OF a assms(2)]
  from run_dispatch_preserves[OF a assms(2)]
  obtain a' where a': "store s' = store main_process" "current_state (fsm s') = Some a'" "a' < 4"
    by auto
  have v': "valid_current_state s'"
    using a' by (rule valid_current_stateI)
  have tab: "\<exists>d. current_descriptor s = Inr d
          \<and> current_state (fsm s') = get_next_state main_manager d e"
    using t(1,2) by blast
  from run_in_step[OF in_step_main, of n] obtain t where
    rt: "run main_manager n main_process = Inr t" and it: "in_step t"
    by blast
  from run_iteration_table[OF it] obtain t' e' c' d' where
    t': "get_event (call t) = Inr (e', c')" "current_descriptor t = Inr d'"
      "run_iteration main_manager t = Inr t'"
      "current_state (fsm t') = get_next_state main_manager d' e'"
      "current_state (fsm t') = idle_state main_manager
        \<or> current_state (fsm t') = phone_ringing_state main_manager
        \<or> current_state (fsm t') = in_call_state main_manager"
      "store t' = store main_process" "in_step t'"
    by blast
  have rs: "run main_manager (Suc n) main_process = Inr t'"
    by (simp only: run_snoc rt t'(3) sum.case)
  have vt: "valid_current_state t" and vt': "valid_current_state t'"
    using it t'(7) by (simp_all add: in_step_valid)
  have loop: "\<exists>t t' d' e' c'. run main_manager n main_process = Inr t
          \<and> valid_current_state t
          \<and> get_event (call t) = Inr (e', c') \<and> current_descriptor t = Inr d'
          \<and> run main_manager (Suc n) main_process = Inr t'
          \<and> current_state (fsm t') = get_next_state main_manager d' e'
          \<and> (current_state (fsm t') = idle_state main_manager
             \<or> current_state (fsm t') = phone_ringing_state main_manager
             \<or> current_state (fsm t') = in_call_state main_manager)
          \<and> valid_current_state t'
          \<and> store t' = store main_process"
    using rt vt t'(1,2) rs t'(4,5) vt' t'(6) by blast
  show ?thesis
    by (intro conjI i1 i2 i3 i4 v v' tab t(3) t(4) loop)
qed

theorem current_state_valid_witness:
  "process_events main_manager [INCOMING_CALL] main_process = Inr (main_process\<lparr>cout := [event_line INCOMING_CALL], fsm := \<lparr>current_state = Some 2\<rparr>\<rparr>)
   \<and> run_dispatch main_manager CALL_ANSWERED (main_process\<lparr>cout := [event_line INCOMING_CALL], fsm := \<lparr>current_state = Some 2\<rparr>\<rparr>) = Inr (main_process\<lparr>cout := [event_line INCOMING_CALL, event_line CALL_ANSWERED],
        fsm := \<lparr>current_state = Some 3\<rparr>\<rparr>)
   \<and> deref (store main_process) (current_state (fsm main_process)) = Inr (0, Idle_new)
     \<and> current_state (fsm main_process) \<noteq> idle_state main_manager
     \<and> current_state (fsm main_process) \<noteq> phone_ringing_state main_manager
     \<and> current_state (fsm main_process) \<noteq> in_call_state main_manager
     \<and> valid_current_state (main_process\<lparr>cout := [event_line INCOMING_CALL], fsm := \<lparr>current_state = Some 2\<rparr>\<rparr>)
     \<and> valid_current_state (main_process\<lparr>cout := [event_line INCOMING_CALL, event_line CALL_ANSWERED],
        fsm := \<lparr>current_state = Some 3\<rparr>\<rparr>)
     \<and> (\<exists>d. current_descriptor (main_process\<lparr>cout := [event_line INCOMING_CALL], fsm := \<lparr>current_state = Some 2\<rparr>\<rparr>) = Inr d
          \<and> current_state (fsm (main_process\<lparr>cout := [event_line INCOMING_CALL, event_line CALL_ANSWERED],
        fsm := \<lparr>current_state = Some 3\<rparr>\<rparr>)) = get_next_state main_manager d CALL_ANSWERED)
     \<and> (current_state (fsm (main_process\<lparr>cout := [event_line INCOMING_CALL, event_line CALL_ANSWERED],
        fsm := \<lparr>current_state = Some 3\<rparr>\<rparr>)) = idle_state main_manager
        \<or> current_state (fsm (main_process\<lparr>cout := [event_line INCOMING_CALL, event_line CALL_ANSWERED],
        fsm := \<lparr>current_state = Some 3\<rparr>\<rparr>)) = phone_ringing_state main_manager
        \<or> current_state (fsm (main_process\<lparr>cout := [event_line INCOMING_CALL, event_line CALL_ANSWERED],
        fsm := \<lparr>current_state = Some 3\<rparr>\<rparr>)) = in_call_state main_manager)
     \<and> store (main_process\<lparr>cout := [event_line INCOMING_CALL, event_line CALL_ANSWERED],
        fsm := \<lparr>current_state = Some 3\<rparr>\<rparr>) = store main_process
     \<and> (\<exists>t t' d' e' c'. run main_manager 4 main_process = Inr t
          \<and> valid_current_state t
          \<and> get_event (call t) = Inr (e', c') \<and> current_descriptor t = Inr d'
          \<and> run main_manager (Suc 4) main_process = Inr t'
          \<and> current_state (fsm t') = get_next_state main_manager d' e'
          \<and> (current_state (fsm t') = idle_state main_manager
             \<or> current_state (fsm t') = phone_ringing_state main_manager
             \<or> current_state (fsm t') = in_call_state main_manager)
          \<and> valid_current_state t'
          \<and> store t' = store main_process)"
proof -
  have h1: "process_events main_manager [INCOMING_CALL] main_process = Inr (main_process\<lparr>cout := [event_line INCOMING_CALL], fsm := \<lparr>current_state = Some 2\<rparr>\<rparr>)"
    using run_dispatch_main[OF refl main_fsm, of INCOMING_CALL]
    by (simp add: main_store descriptor_new main_call_cout main_fsm)
  have "store (main_process\<lparr>cout := [event_line INCOMING_CALL], fsm := \<lparr>current_state = Some 2\<rparr>\<rparr>) = store main_process"
    and "current_state (fsm (main_process\<lparr>cout := [event_line INCOMING_CALL], fsm := \<lparr>current_state = Some 2\<rparr>\<rparr>)) = Some 2" and "(2::nat) < 4"
    by simp_all
  from run_dispatch_main[OF this, of CALL_ANSWERED]
  have h2: "run_dispatch main_manager CALL_ANSWERED (main_process\<lparr>cout := [event_line INCOMING_CALL], fsm := \<lparr>current_state = Some 2\<rparr>\<rparr>) = Inr (main_process\<lparr>cout := [event_line INCOMING_CALL, event_line CALL_ANSWERED],
        fsm := \<lparr>current_state = Some 3\<rparr>\<rparr>)"
    by (simp add: main_store descriptor_new main_call_cout)
  show ?thesis
    by (rule conjI[OF h1 conjI[OF h2 current_state_valid[OF h1 h2, of 4]]])
qed

text \<open>
  Claim C6 as stated fails twice. At the start the current state is not one of the
  manager's three objects: it is a fourth object, the machine's own. And after a rejected
  event, here CALL_DECLINED at the start, no machine is left to hold a current state: the
  process ends in a null call before the pointer is reassigned (the table's entry for
  that pair, which would have been assigned, is null).
\<close>

theorem current_state_not_always_one_of_three:
  "current_state (fsm main_process) \<noteq> idle_state main_manager
   \<and> current_state (fsm main_process) \<noteq> phone_ringing_state main_manager
   \<and> current_state (fsm main_process) \<noteq> in_call_state main_manager
   \<and> process_events main_manager [CALL_DECLINED] main_process = Inl Null_function_call
   \<and> get_next_state main_manager IDLE CALL_DECLINED = None"
  using run_dispatch_main[OF refl main_fsm, of CALL_DECLINED]
  by (simp add: main_store descriptor_new main_get_next_state main_fsm main_members)



end
